theory Spec2Isabelle
  imports Complex_Main "HOL-Library.Word"
begin

unbundle bit_operations_syntax

section \<open>The C++ type double: IEEE 754 binary64, round to nearest, ties to even\<close>

text \<open>
  A double is a not-a-number, a signed infinity, or a finite value with a sign bit
  (\<open>True\<close> is negative), a significand \<open>m\<close> and an exponent \<open>e\<close>, of value
  \<open>m * 2 ^ e\<close>. The finite values the hardware stores are those of \<open>binary64\<close> below:
  \<open>0 \<le> m < 2 ^ 53\<close> and \<open>- 1074 \<le> e \<le> 971\<close>, with \<open>2 ^ 52 \<le> m\<close> unless
  \<open>e = - 1074\<close> (zero and the subnormal numbers); the operations return values of
  that form. Both zeros are kept apart.
\<close>

datatype double = NaN | Infinity bool | Finite bool int int

fun valof :: "double \<Rightarrow> real" where
  "valof (Finite s m e) = (if s then - 1 else 1) * real_of_int m * 2 powi e"
| "valof (Infinity s) = 0"
| "valof NaN = 0"

fun binary64 :: "double \<Rightarrow> bool" where
  "binary64 (Finite s m e) =
     (0 \<le> m \<and> m < 2 ^ 53 \<and> - 1074 \<le> e \<and> e \<le> 971 \<and> (e = - 1074 \<or> 2 ^ 52 \<le> m))"
| "binary64 (Infinity s) = True"
| "binary64 NaN = True"

text \<open>The number of binary digits of a positive integer.\<close>

function bit_length :: "int \<Rightarrow> int" where
  "bit_length n = (if n \<le> 0 then 0 else 1 + bit_length (n div 2))"
  by pat_completeness auto
termination
  by (relation "measure nat") auto

declare bit_length.simps [simp del]

text \<open>The integer nearest to \<open>n / d\<close>, the even one of the two when \<open>n / d\<close> is half way.\<close>

definition round_half_even :: "int \<Rightarrow> int \<Rightarrow> int" where
  "round_half_even n d =
     (let q = n div d; r = n mod d
      in if 2 * r < d then q else if d < 2 * r then q + 1 else if even q then q else q + 1)"

text \<open>The floor of the binary logarithm of \<open>p / q\<close>, for positive \<open>p\<close> and \<open>q\<close>.\<close>

definition ilog2_ratio :: "int \<Rightarrow> int \<Rightarrow> int" where
  "ilog2_ratio p q =
     (let d = bit_length p - bit_length q
      in if q * 2 ^ nat d \<le> p * 2 ^ nat (- d) then d else d - 1)"

text \<open>
  Rounding of the exact magnitude \<open>p / q * 2 ^ x\<close> (with \<open>0 \<le> p\<close> and \<open>0 < q\<close>) to a
  double of sign \<open>s\<close>: the result has 53 significant bits, or fewer below \<open>2 ^ - 1022\<close>,
  where the exponent stays at \<open>- 1074\<close>; a rounded magnitude of \<open>2 ^ 1024\<close> or more is an
  overflow and gives the infinity.
\<close>

definition round_to_double :: "bool \<Rightarrow> int \<Rightarrow> int \<Rightarrow> int \<Rightarrow> double" where
  "round_to_double s p q x =
     (if p = 0 then Finite s 0 (- 1074)
      else
        let e = max (ilog2_ratio p q + x - 52) (- 1074);
            m = round_half_even (p * 2 ^ nat (x - e)) (q * 2 ^ nat (e - x));
            e' = (if m = 2 ^ 53 then e + 1 else e);
            m' = (if m = 2 ^ 53 then 2 ^ 52 else m)
        in if 971 < e' then Infinity s else Finite s m' e')"

text \<open>The signed integer of a sign and a magnitude.\<close>

definition sval :: "bool \<Rightarrow> int \<Rightarrow> int" where
  "sval s m = (if s then - m else m)"

fun dneg :: "double \<Rightarrow> double" where
  "dneg NaN = NaN"
| "dneg (Infinity s) = Infinity (\<not> s)"
| "dneg (Finite s m e) = Finite (\<not> s) m e"

text \<open>\<open>std::abs\<close> on a double clears the sign bit.\<close>

fun dabs :: "double \<Rightarrow> double" where
  "dabs NaN = NaN"
| "dabs (Infinity s) = Infinity False"
| "dabs (Finite s m e) = Finite False m e"

text \<open>
  Addition: the exact sum of two finite values is an integer multiple of the smaller of
  the two quanta, and is rounded once. An exact zero sum is \<open>+0\<close> unless both operands
  are negative.
\<close>

fun dadd :: "double \<Rightarrow> double \<Rightarrow> double" where
  "dadd NaN _ = NaN"
| "dadd _ NaN = NaN"
| "dadd (Infinity s) (Infinity t) = (if s = t then Infinity s else NaN)"
| "dadd (Infinity s) (Finite t n f) = Infinity s"
| "dadd (Finite s m e) (Infinity t) = Infinity t"
| "dadd (Finite s m e) (Finite t n f) =
     (let x = min e f;
          k = sval s (m * 2 ^ nat (e - x)) + sval t (n * 2 ^ nat (f - x))
      in if k = 0 then Finite (s \<and> t) 0 (- 1074) else round_to_double (k < 0) \<bar>k\<bar> 1 x)"

definition dsub :: "double \<Rightarrow> double \<Rightarrow> double" where
  "dsub a b = dadd a (dneg b)"

fun dmul :: "double \<Rightarrow> double \<Rightarrow> double" where
  "dmul NaN _ = NaN"
| "dmul _ NaN = NaN"
| "dmul (Infinity s) (Infinity t) = Infinity (s \<noteq> t)"
| "dmul (Infinity s) (Finite t n f) = (if n = 0 then NaN else Infinity (s \<noteq> t))"
| "dmul (Finite s m e) (Infinity t) = (if m = 0 then NaN else Infinity (s \<noteq> t))"
| "dmul (Finite s m e) (Finite t n f) = round_to_double (s \<noteq> t) (m * n) 1 (e + f)"

fun ddiv :: "double \<Rightarrow> double \<Rightarrow> double" where
  "ddiv NaN _ = NaN"
| "ddiv _ NaN = NaN"
| "ddiv (Infinity s) (Infinity t) = NaN"
| "ddiv (Infinity s) (Finite t n f) = Infinity (s \<noteq> t)"
| "ddiv (Finite s m e) (Infinity t) = Finite (s \<noteq> t) 0 (- 1074)"
| "ddiv (Finite s m e) (Finite t n f) =
     (if n = 0 then (if m = 0 then NaN else Infinity (s \<noteq> t))
      else round_to_double (s \<noteq> t) m n (e - f))"

text \<open>Comparisons: every comparison with a not-a-number is false.\<close>

fun dlt :: "double \<Rightarrow> double \<Rightarrow> bool" where
  "dlt NaN _ = False"
| "dlt _ NaN = False"
| "dlt (Infinity s) (Infinity t) = (s \<and> \<not> t)"
| "dlt (Infinity s) (Finite t n f) = s"
| "dlt (Finite s m e) (Infinity t) = (\<not> t)"
| "dlt (Finite s m e) (Finite t n f) =
     (let x = min e f in sval s (m * 2 ^ nat (e - x)) < sval t (n * 2 ^ nat (f - x)))"

fun dle :: "double \<Rightarrow> double \<Rightarrow> bool" where
  "dle NaN _ = False"
| "dle _ NaN = False"
| "dle (Infinity s) (Infinity t) = (s \<or> \<not> t)"
| "dle (Infinity s) (Finite t n f) = s"
| "dle (Finite s m e) (Infinity t) = (\<not> t)"
| "dle (Finite s m e) (Finite t n f) =
     (let x = min e f in sval s (m * 2 ^ nat (e - x)) \<le> sval t (n * 2 ^ nat (f - x)))"

text \<open>\<open>std::isinf\<close> and \<open>std::isfinite\<close>.\<close>

fun isinf :: "double \<Rightarrow> bool" where
  "isinf (Infinity s) = True"
| "isinf _ = False"

fun isfinite :: "double \<Rightarrow> bool" where
  "isfinite (Finite s m e) = True"
| "isfinite _ = False"

text \<open>The conversion of an \<open>int\<close> to double, and the double of a decimal literal \<open>p / q\<close>.\<close>

definition double_of_int :: "int \<Rightarrow> double" where
  "double_of_int i = round_to_double (i < 0) \<bar>i\<bar> 1 0"

definition double_lit :: "int \<Rightarrow> int \<Rightarrow> double" where
  "double_lit p q = round_to_double False p q 0"

text \<open>The largest finite double, \<open>DBL_MAX\<close>.\<close>

definition DBL_MAX :: double where
  "DBL_MAX = Finite False (2 ^ 53 - 1) 971"


section \<open>Errors\<close>

text \<open>
  The three exception classes the code throws, each with its message:
  \<open>Calc::CalculatorError\<close>, \<open>std::invalid_argument\<close> and \<open>std::overflow_error\<close>.
\<close>

datatype error = CalculatorError string | invalid_argument string | overflow_error string


section \<open>Calc::Utils (math\_utils.cpp)\<close>

text \<open>The default argument \<open>epsilon = 1e-9\<close> of \<open>isZero\<close> and \<open>areEqual\<close>.\<close>

definition default_epsilon :: double where
  "default_epsilon = double_lit 1 (10 ^ 9)"

definition isZero :: "double \<Rightarrow> double \<Rightarrow> bool" where
  "isZero v epsilon = dlt (dabs v) epsilon"

definition areEqual :: "double \<Rightarrow> double \<Rightarrow> double \<Rightarrow> bool" where
  "areEqual a b epsilon = dlt (dabs (dsub a b)) epsilon"

text \<open>
  The loop \<open>for (int i = 2; i <= n; ++i) result *= i\<close>. It is reached with
  \<open>n \<le> 170\<close> only, so \<open>i\<close> never passes 171 and no \<open>int\<close> operation can overflow:
  the counters are modelled as unbounded integers.
\<close>

function factorial_loop :: "int \<Rightarrow> int \<Rightarrow> double \<Rightarrow> double" where
  "factorial_loop i n result =
     (if i \<le> n then factorial_loop (i + 1) n (dmul result (double_of_int i)) else result)"
  by pat_completeness auto
termination
  by (relation "measure (\<lambda>(i, n, result). nat (n + 1 - i))") auto

declare factorial_loop.simps [simp del]

definition factorial :: "int \<Rightarrow> error + double" where
  "factorial n =
     (if n < 0 then Inl (invalid_argument ''Factorial undefined for negative numbers'')
      else if 170 < n then Inl (overflow_error ''Factorial too large for double precision'')
      else if n \<le> 1 then Inr (double_lit 1 1)
      else Inr (factorial_loop 2 n (double_lit 1 1)))"

text \<open>
  The exponent of \<open>power\<close> is a 32-bit \<open>int\<close>, and \<open>-exponent\<close> is computed on it:
  the negation wraps around, as the two's complement hardware does (the C++ standard
  leaves the overflow undefined).

  The loop \<open>while (exponent > 0)\<close> of the binary exponentiation:
\<close>

type_synonym cint = "32 word"

function power_loop :: "cint \<Rightarrow> double \<Rightarrow> double \<Rightarrow> double" where
  "power_loop exponent result current_power =
     (if 0 <s exponent
      then power_loop (signed_drop_bit 1 exponent)
             (if exponent AND 1 \<noteq> 0 then dmul result current_power else result)
             (dmul current_power current_power)
      else result)"
  by pat_completeness auto
termination
proof (relation "measure (\<lambda>(exponent, result, current_power). nat (sint exponent))")
  show "wf (measure (\<lambda>(exponent :: cint, result :: double, current_power :: double).
    nat (sint exponent)))"
    by simp
next
  fix exponent :: cint and result current_power :: double
  assume "0 <s exponent"
  then have pos: "0 < sint exponent"
    by (simp add: word_sless_alt)
  have "sint (signed_drop_bit 1 exponent) = sint exponent div 2"
    by (simp add: sint_signed_drop_bit_eq drop_bit_eq_div)
  with pos show "((signed_drop_bit 1 exponent,
      if exponent AND 1 \<noteq> 0 then dmul result current_power else result,
      dmul current_power current_power),
      exponent, result, current_power)
    \<in> measure (\<lambda>(exponent, result, current_power). nat (sint exponent))"
    by simp
qed

declare power_loop.simps [simp del]

text \<open>
  \<open>power\<close> (here \<open>power_util\<close>) calls itself for a negative exponent. A call
  that does not return has the value \<open>None\<close>.
\<close>

partial_function (option) power_util :: "double \<Rightarrow> cint \<Rightarrow> (error + double) option" where
  "power_util base exponent =
     (if exponent = 0 then Some (Inr (double_lit 1 1))
      else if exponent <s 0 then
        (if isZero base default_epsilon
         then Some (Inl (invalid_argument ''Cannot raise zero to negative power''))
         else Option.bind (power_util base (- exponent))
                (\<lambda>r. Some (case r of Inl err \<Rightarrow> Inl err
                              | Inr v \<Rightarrow> Inr (ddiv (double_lit 1 1) v))))
      else Some (Inr (power_loop exponent (double_lit 1 1) base)))"

text \<open>\<open>M_PI\<close> is the macro of \<open><cmath>\<close>, the literal \<open>3.14159265358979323846\<close>.\<close>

definition M_PI :: double where
  "M_PI = double_lit 314159265358979323846 (10 ^ 20)"

definition degreeToRadian :: "double \<Rightarrow> double" where
  "degreeToRadian degrees = ddiv (dmul degrees M_PI) (double_lit 180 1)"

definition radianToDegree :: "double \<Rightarrow> double" where
  "radianToDegree radians = ddiv (dmul radians (double_lit 180 1)) M_PI"

definition isFinite :: "double \<Rightarrow> bool" where
  "isFinite v = isfinite v"

definition isValidForLog :: "double \<Rightarrow> bool" where
  "isValidForLog v = (dlt (double_lit 0 1) v \<and> isfinite v)"

definition isValidForSqrt :: "double \<Rightarrow> bool" where
  "isValidForSqrt v = (dle (double_lit 0 1) v \<and> isfinite v)"


section \<open>Calc::BasicCalculator (basic\_calculator.cpp)\<close>

text \<open>
  The two private members, both initialised to \<open>0.0\<close>. Every member function takes the
  object and returns its result, or the exception it throws, together with the object
  as the call leaves it.
\<close>

record BasicCalculator =
  memory :: double
  last_result :: double

definition new_calculator :: BasicCalculator where
  "new_calculator = \<lparr>memory = double_lit 0 1, last_result = double_lit 0 1\<rparr>"

definition updateLastResult :: "double \<Rightarrow> BasicCalculator \<Rightarrow> BasicCalculator" where
  "updateLastResult result this = this\<lparr>last_result := result\<rparr>"

definition add :: "BasicCalculator \<Rightarrow> double \<Rightarrow> double \<Rightarrow> (error + double) \<times> BasicCalculator" where
  "add this a b =
     (let result = dadd a b
      in if isinf result then (Inl (CalculatorError ''Addition Overflow''), this)
         else (Inr result, updateLastResult result this))"

definition substract :: "BasicCalculator \<Rightarrow> double \<Rightarrow> double \<Rightarrow> (error + double) \<times> BasicCalculator" where
  "substract this a b =
     (let result = dsub a b
      in if isinf result then (Inl (CalculatorError ''Substraction Overflow''), this)
         else (Inr result, updateLastResult result this))"

definition multiply :: "BasicCalculator \<Rightarrow> double \<Rightarrow> double \<Rightarrow> (error + double) \<times> BasicCalculator" where
  "multiply this a b =
     (let result = dmul a b
      in if isinf result then (Inl (CalculatorError ''Multiplication Overflow''), this)
         else (Inr result, updateLastResult result this))"

text \<open>\<open>divide\<close>, here \<open>divide_calc\<close>.\<close>

definition divide_calc :: "BasicCalculator \<Rightarrow> double \<Rightarrow> double \<Rightarrow> (error + double) \<times> BasicCalculator" where
  "divide_calc this a b =
     (if isZero b default_epsilon then (Inl (CalculatorError ''Division by zero''), this)
      else let result = ddiv a b in (Inr result, updateLastResult result this))"

definition memoryStore :: "BasicCalculator \<Rightarrow> double \<Rightarrow> (error + unit) \<times> BasicCalculator" where
  "memoryStore this v = (Inr (), this\<lparr>memory := v\<rparr>)"

definition memoryRecall :: "BasicCalculator \<Rightarrow> (error + double) \<times> BasicCalculator" where
  "memoryRecall this = (Inr (memory this), this)"

definition memoryClear :: "BasicCalculator \<Rightarrow> (error + unit) \<times> BasicCalculator" where
  "memoryClear this = (Inr (), this\<lparr>memory := double_lit 0 1\<rparr>)"

definition clear :: "BasicCalculator \<Rightarrow> (error + unit) \<times> BasicCalculator" where
  "clear this = (Inr (), this\<lparr>last_result := double_lit 0 1\<rparr>)"

definition getLastResult :: "BasicCalculator \<Rightarrow> (error + double) \<times> BasicCalculator" where
  "getLastResult this = (Inr (last_result this), this)"


section \<open>Functions of the specification and of the proofs\<close>

text \<open>
  The binary exponentiation as the specification words it, on the value of the exponent:
  while the exponent is positive, multiply the accumulator by the current power when
  the lowest bit is set, square the current power, halve the exponent.
\<close>

function binary_exponentiation :: "int \<Rightarrow> double \<Rightarrow> double \<Rightarrow> double" where
  "binary_exponentiation n acc cur =
     (if 0 < n
      then binary_exponentiation (n div 2) (if odd n then dmul acc cur else acc) (dmul cur cur)
      else acc)"
  by pat_completeness auto
termination
  by (relation "measure (\<lambda>(n, acc, cur). nat n)") auto

declare binary_exponentiation.simps [simp del]

text \<open>The number of times the body of the loop of \<open>power\<close> runs.\<close>

function power_loop_iterations :: "cint \<Rightarrow> nat" where
  "power_loop_iterations exponent =
     (if 0 <s exponent then Suc (power_loop_iterations (signed_drop_bit 1 exponent)) else 0)"
  by pat_completeness auto
termination
proof (relation "measure (\<lambda>exponent. nat (sint exponent))")
  show "wf (measure (\<lambda>exponent :: cint. nat (sint exponent)))"
    by simp
next
  fix exponent :: cint
  assume "0 <s exponent"
  then have pos: "0 < sint exponent"
    by (simp add: word_sless_alt)
  have "sint (signed_drop_bit 1 exponent) = sint exponent div 2"
    by (simp add: sint_signed_drop_bit_eq drop_bit_eq_div)
  with pos show "(signed_drop_bit 1 exponent, exponent)
    \<in> measure (\<lambda>exponent. nat (sint exponent))"
    by simp
qed

declare power_loop_iterations.simps [simp del]

text \<open>
  A test of the running products of \<open>factorial\<close>: \<open>r\<close> and the next \<open>k\<close> products
  \<open>r * i\<close>, \<open>r * i * (i + 1)\<close>, ... are all finite and at least \<open>1.0\<close>.
\<close>

fun products_finite :: "nat \<Rightarrow> int \<Rightarrow> double \<Rightarrow> bool" where
  "products_finite 0 i r = (isfinite r \<and> dle (double_lit 1 1) r)"
| "products_finite (Suc k) i r =
     (isfinite r \<and> dle (double_lit 1 1) r
      \<and> products_finite k (i + 1) (dmul r (double_of_int i)))"


section \<open>Evaluation of the literals\<close>

lemma lit_zero: "double_lit 0 1 = Finite False 0 (- 1074)"
  by (simp add: double_lit_def round_to_double_def)

lemma lit_one: "double_lit 1 1 = Finite False 4503599627370496 (- 52)"
  by code_simp

lemma lit_epsilon: "default_epsilon = Finite False 4835703278458517 (- 82)"
  by code_simp

lemma lit_180: "double_lit 180 1 = Finite False 6333186975989760 (- 45)"
  by code_simp

lemma lit_M_PI: "M_PI = Finite False 7074237752028440 (- 51)"
  by code_simp


section \<open>Properties of the rounding\<close>

text \<open>
  The bit length brackets a positive integer between two powers of two, and
  \<open>ilog2_ratio\<close> a positive ratio.
\<close>

lemma bit_length_bounds:
  "0 < n \<Longrightarrow> 1 \<le> bit_length n \<and> 2 ^ nat (bit_length n - 1) \<le> n \<and> n < 2 ^ nat (bit_length n)"
proof (induction n rule: bit_length.induct)
  case (1 n)
  show ?case
  proof (cases "n = 1")
    case True
    then show ?thesis
      by (simp add: bit_length.simps [of 1] bit_length.simps [of 0])
  next
    case False
    with 1(2) have h: "0 < n div 2" "\<not> n \<le> 0"
      by simp_all
    define k where "k = bit_length (n div 2)"
    from 1(1) [OF h(2) h(1)] have ih: "1 \<le> k" "2 ^ nat (k - 1) \<le> n div 2" "n div 2 < 2 ^ nat k"
      by (simp_all add: k_def)
    have bl: "bit_length n = 1 + k"
      using h(2) by (simp add: bit_length.simps [of n] k_def)
    from ih(1) have e: "nat (1 + k - 1) = Suc (nat (k - 1))" "nat (1 + k) = Suc (nat k)"
      by simp_all
    from ih show ?thesis
      unfolding bl e by (simp; linarith)
  qed
qed

lemma powi_nat: "0 \<le> k \<Longrightarrow> (2::real) ^ nat k = 2 powi k"
  by (simp add: power_int_def)

lemma bit_length_real:
  assumes "0 < n"
  shows "2 powi (bit_length n - 1) \<le> real_of_int n" and "real_of_int n < 2 powi (bit_length n)"
proof -
  from bit_length_bounds [OF assms]
  have b: "1 \<le> bit_length n" "2 ^ nat (bit_length n - 1) \<le> n" "n < 2 ^ nat (bit_length n)"
    by simp_all
  from b(2) have "real_of_int (2 ^ nat (bit_length n - 1)) \<le> real_of_int n"
    by (rule of_int_le_iff [THEN iffD2])
  with b(1) show "2 powi (bit_length n - 1) \<le> real_of_int n"
    by (simp add: power_int_def)
  from b(3) have "real_of_int n < real_of_int (2 ^ nat (bit_length n))"
    by (rule of_int_less_iff [THEN iffD2])
  with b(1) show "real_of_int n < 2 powi (bit_length n)"
    by (simp add: power_int_def)
qed

lemma round_half_even_error:
  assumes "0 < d"
  shows "\<bar>real_of_int (round_half_even n d) - real_of_int n / real_of_int d\<bar> \<le> 1 / 2"
proof -
  define q where "q = n div d"
  define r where "r = n mod d"
  have n: "n = q * d + r"
    by (simp add: q_def r_def)
  from assms have r: "0 \<le> r" "r < d"
    by (simp_all add: r_def)
  have v: "real_of_int n / real_of_int d = real_of_int q + real_of_int r / real_of_int d"
    using assms by (simp add: n field_simps)
  have c: "round_half_even n d =
      (if 2 * r < d then q else if d < 2 * r then q + 1 else if even q then q else q + 1)"
    by (simp add: round_half_even_def Let_def q_def r_def)
  have d: "0 < real_of_int d"
    using assms by simp
  consider "2 * r < d" | "d < 2 * r" | "2 * r = d"
    by linarith
  then show ?thesis
  proof cases
    case 1
    then have "2 * real_of_int r < real_of_int d"
      by (metis of_int_less_iff of_int_mult of_int_numeral)
    with r d have "real_of_int r / real_of_int d < 1 / 2" "0 \<le> real_of_int r / real_of_int d"
      by (simp_all add: field_simps)
    with 1 show ?thesis
      by (simp add: c v)
  next
    case 2
    then have "real_of_int d < 2 * real_of_int r"
      by (metis of_int_less_iff of_int_mult of_int_numeral)
    moreover from r have "real_of_int r < real_of_int d"
      by simp
    ultimately have "1 / 2 < real_of_int r / real_of_int d" "real_of_int r / real_of_int d < 1"
      using d by (simp_all add: field_simps)
    with 2 show ?thesis
      by (simp add: c v)
  next
    case 3
    then have "2 * real_of_int r = real_of_int d"
      by (metis of_int_mult of_int_numeral)
    with d have "real_of_int r / real_of_int d = 1 / 2"
      by (simp add: field_simps)
    then have rr: "real_of_int n / real_of_int d = real_of_int q + 1 / 2"
      by (simp only: v)
    have "round_half_even n d = q \<or> round_half_even n d = q + 1"
      by (simp add: c)
    then show ?thesis
      unfolding rr by auto
  qed
qed

lemma round_half_even_nonneg: "0 \<le> n \<Longrightarrow> 0 < d \<Longrightarrow> 0 \<le> round_half_even n d"
  by (simp add: round_half_even_def Let_def pos_imp_zdiv_nonneg_iff)

lemma pow2_split: "(2::real) ^ nat k / 2 ^ nat (- k) = 2 powi k"
  by (cases "0 \<le> k") (simp_all add: power_int_def power_inverse field_simps)

lemma scale_ratio:
  "real_of_int (p * 2 ^ nat k) / real_of_int (q * 2 ^ nat (- k))
     = real_of_int p / real_of_int q * 2 powi k"
  by (simp add: pow2_split [symmetric])

lemma powi_less_imp: "(2::real) powi a < 2 powi b \<Longrightarrow> a < b"
proof (rule ccontr)
  assume l: "(2::real) powi a < 2 powi b" and "\<not> a < b"
  then have "b \<le> a" by simp
  then have "(2::real) powi b \<le> 2 powi a"
    by (rule power_int_increasing) simp
  with l show False by simp
qed

lemma ilog2_ratio_bounds:
  assumes p: "0 < p" and q: "0 < q"
  shows "2 powi (ilog2_ratio p q) \<le> real_of_int p / real_of_int q"
    and "real_of_int p / real_of_int q < 2 powi (ilog2_ratio p q + 1)"
proof -
  define a where "a = bit_length p"
  define b where "b = bit_length q"
  define d where "d = a - b"
  define P where "P = real_of_int p"
  define Q where "Q = real_of_int q"
  have pos: "0 < P" "0 < Q"
    using p q by (simp_all add: P_def Q_def)
  have pa: "2 powi (a - 1) \<le> P" "P < 2 powi a"
    using bit_length_real [OF p] by (simp_all add: a_def P_def)
  have qb: "2 powi (b - 1) \<le> Q" "Q < 2 powi b"
    using bit_length_real [OF q] by (simp_all add: b_def Q_def)
  have cond: "(q * 2 ^ nat d \<le> p * 2 ^ nat (- d)) \<longleftrightarrow> 2 powi d \<le> P / Q"
  proof -
    have "(q * 2 ^ nat d \<le> p * 2 ^ nat (- d))
        \<longleftrightarrow> real_of_int (q * 2 ^ nat d) \<le> real_of_int (p * 2 ^ nat (- d))"
      by (simp only: of_int_le_iff)
    also have "\<dots> \<longleftrightarrow> Q * 2 ^ nat d \<le> P * 2 ^ nat (- d)"
      by (simp add: P_def Q_def)
    also have "\<dots> \<longleftrightarrow> 2 ^ nat d / 2 ^ nat (- d) \<le> P / Q"
      using pos by (simp add: field_simps)
    finally show ?thesis
      by (simp only: pow2_split)
  qed
  have upper: "P / Q < 2 powi (d + 1)"
  proof -
    have "2 powi a = (2::real) powi (d + 1) * 2 powi (b - 1)"
      by (simp add: d_def power_int_add [symmetric])
    also have "\<dots> \<le> 2 powi (d + 1) * Q"
      using qb(1) by (simp add: mult_left_mono)
    finally have "P < 2 powi (d + 1) * Q"
      using pa(2) by simp
    with pos show ?thesis
      by (simp add: field_simps)
  qed
  have lower: "2 powi (d - 1) \<le> P / Q"
  proof -
    have "2 powi (d - 1) * Q \<le> 2 powi (d - 1) * 2 powi b"
      using qb(2) by (simp add: mult_left_mono)
    also have "\<dots> = 2 powi (a - 1)"
      by (simp add: d_def power_int_add [symmetric])
    finally have "2 powi (d - 1) * Q \<le> P"
      using pa(1) by simp
    with pos show ?thesis
      by (simp add: field_simps)
  qed
  have "ilog2_ratio p q = (if q * 2 ^ nat d \<le> p * 2 ^ nat (- d) then d else d - 1)"
    unfolding ilog2_ratio_def Let_def d_def a_def b_def ..
  then have il: "ilog2_ratio p q = (if 2 powi d \<le> P / Q then d else d - 1)"
    by (simp only: cond)
  show "2 powi (ilog2_ratio p q) \<le> real_of_int p / real_of_int q"
    using lower by (simp add: il P_def [symmetric] Q_def [symmetric])
  show "real_of_int p / real_of_int q < 2 powi (ilog2_ratio p q + 1)"
    using upper by (simp add: il P_def [symmetric] Q_def [symmetric])
qed

text \<open>
  The rounding error. For a positive magnitude \<open>v\<close> below \<open>2 ^ 1023\<close> the rounding gives a
  finite double within \<open>v * 2 ^ - 53 + 2 ^ - 1075\<close> of \<open>v\<close>: half a unit in the last place
  of a normal number, half the spacing of the subnormal numbers below.
\<close>

lemma round_to_double_error:
  assumes p: "0 < p" and q: "0 < q"
    and v: "v = real_of_int p / real_of_int q * 2 powi x"
    and bound: "v < 2 powi 1023"
  shows "\<exists>m e. round_to_double s p q x = Finite s m e \<and> 0 \<le> m
          \<and> \<bar>real_of_int m * 2 powi e - v\<bar> \<le> v * 2 powi (- 53) + 2 powi (- 1075)"
proof -
  define L where "L = ilog2_ratio p q"
  define e where "e = max (L + x - 52) (- 1074)"
  define n where "n = p * 2 ^ nat (x - e)"
  define d where "d = q * 2 ^ nat (e - x)"
  define m where "m = round_half_even n d"
  define E :: real where "E = 2 powi e"
  define R where "R = real_of_int p / real_of_int q"
  have Rpos: "0 < R"
    using p q by (simp add: R_def)
  have LR: "2 powi L \<le> R" "R < 2 powi (L + 1)"
    using ilog2_ratio_bounds [OF p q] by (simp_all add: L_def R_def)
  have vR: "v = R * 2 powi x"
    by (simp add: v R_def)
  have vpos: "0 < v"
    using Rpos by (simp add: vR)
  have Epos: "0 < E"
    by (simp add: E_def)
  have dpos: "0 < d"
    using q by (simp add: d_def)
  have npos: "0 \<le> n"
    using p by (simp add: n_def)
  have "2 powi (L + x) = (2::real) powi L * 2 powi x"
    by (simp add: power_int_add)
  also have "\<dots> \<le> R * 2 powi x"
    using LR(1) by (simp add: mult_right_mono)
  finally have low: "2 powi (L + x) \<le> v"
    by (simp add: vR)
  with bound have "(2::real) powi (L + x) < 2 powi 1023"
    by simp
  then have "L + x < 1023"
    by (rule powi_less_imp)
  then have e_le: "e \<le> 970"
    by (simp add: e_def)
  have t: "real_of_int n / real_of_int d = v / E"
  proof -
    have "e - x = - (x - e)"
      by simp
    then have "real_of_int n / real_of_int d
        = real_of_int (p * 2 ^ nat (x - e)) / real_of_int (q * 2 ^ nat (- (x - e)))"
      by (simp only: n_def d_def)
    also have "\<dots> = R * 2 powi (x - e)"
      by (simp only: scale_ratio R_def)
    also have "\<dots> = R * (2 powi x / 2 powi e)"
      by (simp add: power_int_diff)
    finally show ?thesis
      by (simp add: vR E_def)
  qed
  have "\<bar>real_of_int m - v / E\<bar> \<le> 1 / 2"
    using round_half_even_error [OF dpos, of n] by (simp add: m_def t)
  then have "E * \<bar>real_of_int m - v / E\<bar> \<le> E * (1 / 2)"
    using Epos by (simp only: mult_le_cancel_left_pos)
  moreover have "E * \<bar>real_of_int m - v / E\<bar> = \<bar>real_of_int m * E - v\<bar>"
  proof -
    have "E * \<bar>real_of_int m - v / E\<bar> = \<bar>E * (real_of_int m - v / E)\<bar>"
      using Epos by (simp add: abs_mult)
    also have "E * (real_of_int m - v / E) = real_of_int m * E - v"
      using Epos by (simp add: field_simps)
    finally show ?thesis .
  qed
  ultimately have err: "\<bar>real_of_int m * E - v\<bar> \<le> E / 2"
    by simp
  have Eb: "E \<le> v * 2 powi (- 52) + 2 powi (- 1074)"
  proof (cases "- 1074 \<le> L + x - 52")
    case True
    then have "e = L + x - 52"
      by (simp add: e_def)
    moreover have "(2::real) powi (L + x + (- 52)) = 2 powi (L + x) * 2 powi (- 52)"
      by (rule power_int_add) simp
    ultimately have "E = 2 powi (L + x) * 2 powi (- 52)"
      by (simp add: E_def)
    also have "\<dots> \<le> v * 2 powi (- 52)"
      using low by (simp add: mult_right_mono)
    also have "\<dots> \<le> v * 2 powi (- 52) + 2 powi (- 1074)"
      by simp
    finally show ?thesis .
  next
    case False
    then have "e = - 1074"
      by (simp add: e_def)
    then have "E = 2 powi (- 1074)"
      by (simp add: E_def)
    moreover have "0 \<le> v * 2 powi (- 52)"
      using vpos by simp
    ultimately show ?thesis
      by linarith
  qed
  have h53: "(2::real) powi (- 52) / 2 = 2 powi (- 53)"
    by (simp add: power_int_minus)
  have h1075: "(2::real) powi (- 1074) / 2 = 2 powi (- 1075)"
  proof -
    have "(2::real) powi (- 1075 + 1) = 2 powi (- 1075) * 2 powi 1"
      by (rule power_int_add) simp
    moreover have "(- 1075 + 1 :: int) = - 1074"
      by simp
    ultimately have "(2::real) powi (- 1074) = 2 powi (- 1075) * 2"
      by (simp only: power_int_1_right)
    then show ?thesis
      by (simp only: nonzero_mult_div_cancel_right [of 2] zero_neq_numeral not_False_eq_True)
  qed
  have "E / 2 \<le> (v * 2 powi (- 52) + 2 powi (- 1074)) / 2"
    using Eb by simp
  also have "\<dots> = v * (2 powi (- 52) / 2) + 2 powi (- 1074) / 2"
    by (simp add: field_simps)
  finally have Eh: "E / 2 \<le> v * 2 powi (- 53) + 2 powi (- 1075)"
    by (simp only: h53 h1075)
  define e' where "e' = (if m = 2 ^ 53 then e + 1 else e)"
  define m' where "m' = (if m = 2 ^ 53 then 2 ^ 52 else m)"
  have mpos: "0 \<le> m"
    using round_half_even_nonneg [OF npos dpos] by (simp add: m_def)
  have m'pos: "0 \<le> m'"
    using mpos by (simp add: m'_def)
  have val: "real_of_int m' * 2 powi e' = real_of_int m * E"
  proof (cases "m = 2 ^ 53")
    case True
    have "(2::real) powi (e + 1) = 2 powi e * 2"
      by (simp add: power_int_add)
    with True show ?thesis
      by (simp add: m'_def e'_def E_def)
  next
    case False
    then show ?thesis
      by (simp add: m'_def e'_def E_def)
  qed
  have "e' \<le> 971"
    using e_le by (simp add: e'_def)
  moreover have "round_to_double s p q x = (if 971 < e' then Infinity s else Finite s m' e')"
    using p unfolding round_to_double_def Let_def e'_def m'_def m_def n_def d_def e_def L_def
    by simp
  ultimately have res: "round_to_double s p q x = Finite s m' e'"
    by simp
  from err Eh have "\<bar>real_of_int m * E - v\<bar> \<le> v * 2 powi (- 53) + 2 powi (- 1075)"
    by (rule order_trans)
  then have "\<bar>real_of_int m' * 2 powi e' - v\<bar> \<le> v * 2 powi (- 53) + 2 powi (- 1075)"
    by (simp only: val)
  with res m'pos show ?thesis
    by blast
qed

lemma round_to_double_error0:
  assumes p: "0 \<le> p" and q: "0 < q"
    and v: "v = real_of_int p / real_of_int q * 2 powi x"
    and bound: "v < 2 powi 1023"
  shows "\<exists>m e. round_to_double s p q x = Finite s m e \<and> 0 \<le> m
          \<and> \<bar>real_of_int m * 2 powi e - v\<bar> \<le> v * 2 powi (- 53) + 2 powi (- 1075)"
proof (cases "p = 0")
  case True
  have "(0::real) \<le> 2 powi (- 1075)"
    by (rule zero_le_power_int) simp
  with True v show ?thesis
    by (simp add: round_to_double_def)
next
  case False
  with p have "0 < p"
    by simp
  from round_to_double_error [OF this q v bound] show ?thesis .
qed

lemma tiny: "(2::real) powi (- 1075) \<le> 1 / 1000000000000000000000000000000"
proof -
  have "(10::real) ^ 30 \<le> 2 ^ 100"
    by simp
  also have "\<dots> \<le> 2 ^ 1075"
    by (rule power_increasing) simp_all
  finally have "1 / (2::real) ^ 1075 \<le> 1 / 10 ^ 30"
    by (simp only: frac_le zero_less_power zero_less_numeral order_refl zero_le_one)
  moreover have "(10::real) ^ 30 = 1000000000000000000000000000000"
    by simp
  moreover have "(2::real) powi (- 1075) = 1 / 2 ^ 1075"
    by (simp only: power_int_minus_divide power_int_numeral)
  ultimately show ?thesis
    by (simp only:)
qed

lemma huge: "v \<le> 1000000000 \<Longrightarrow> (v::real) < 2 powi 1023"
proof -
  assume "v \<le> 1000000000"
  also have "(1000000000::real) < 2 ^ 30"
    by simp
  also have "(2::real) ^ 30 \<le> 2 ^ 1023"
    by (rule power_increasing) simp_all
  finally show ?thesis
    by (simp only: power_int_numeral)
qed

lemma rounding_bound:
  fixes r v :: real
  assumes "\<bar>r - v\<bar> \<le> v * 2 powi (- 53) + 2 powi (- 1075)"
  shows "\<bar>r - v\<bar> \<le> v / 9007199254740992 + 1 / 1000000000000000000000000000000"
proof -
  have "v * 2 powi (- 53) = v / 9007199254740992"
    by (simp only: power_int_minus_divide power_int_numeral) simp
  with assms have "\<bar>r - v\<bar> \<le> v / 9007199254740992 + 2 powi (- 1075)"
    by (simp only:)
  also have "\<dots> \<le> v / 9007199254740992 + 1 / 1000000000000000000000000000000"
    using tiny by (rule add_left_mono)
  finally show ?thesis .
qed

lemma dmul_error:
  assumes "0 \<le> m" and "0 \<le> n"
    and a: "a = real_of_int m * 2 powi e" and b: "b = real_of_int n * 2 powi f"
    and bound: "a * b \<le> 1000000000"
  shows "\<exists>m' e'. dmul (Finite s m e) (Finite t n f) = Finite (s \<noteq> t) m' e' \<and> 0 \<le> m'
          \<and> \<bar>real_of_int m' * 2 powi e' - a * b\<bar> \<le> a * b / 9007199254740992 + 1 / 1000000000000000000000000000000"
proof -
  have p: "0 \<le> m * n"
    using assms by simp
  have v: "a * b = real_of_int (m * n) / real_of_int 1 * 2 powi (e + f)"
    by (simp add: a b power_int_add)
  from round_to_double_error0 [OF p _ v huge [OF bound], of "s \<noteq> t"]
  obtain m' e' where r: "round_to_double (s \<noteq> t) (m * n) 1 (e + f) = Finite (s \<noteq> t) m' e'"
      "0 \<le> m'"
      "\<bar>real_of_int m' * 2 powi e' - a * b\<bar> \<le> a * b * 2 powi (- 53) + 2 powi (- 1075)"
    by auto
  have "\<bar>real_of_int m' * 2 powi e' - a * b\<bar>
      \<le> a * b / 9007199254740992 + 1 / 1000000000000000000000000000000"
    using r(3) by (rule rounding_bound)
  with r(1,2) show ?thesis
    by auto
qed

lemma ddiv_error:
  assumes "0 \<le> m" and "0 < n"
    and a: "a = real_of_int m * 2 powi e" and b: "b = real_of_int n * 2 powi f"
    and bound: "a / b \<le> 1000000000"
  shows "\<exists>m' e'. ddiv (Finite s m e) (Finite t n f) = Finite (s \<noteq> t) m' e' \<and> 0 \<le> m'
          \<and> \<bar>real_of_int m' * 2 powi e' - a / b\<bar> \<le> a / b / 9007199254740992 + 1 / 1000000000000000000000000000000"
proof -
  have v: "a / b = real_of_int m / real_of_int n * 2 powi (e - f)"
    by (simp add: a b power_int_diff)
  from round_to_double_error0 [OF assms(1,2) v huge [OF bound], of "s \<noteq> t"]
  obtain m' e' where r: "round_to_double (s \<noteq> t) m n (e - f) = Finite (s \<noteq> t) m' e'"
      "0 \<le> m'"
      "\<bar>real_of_int m' * 2 powi e' - a / b\<bar> \<le> a / b * 2 powi (- 53) + 2 powi (- 1075)"
    by auto
  have "\<bar>real_of_int m' * 2 powi e' - a / b\<bar>
      \<le> a / b / 9007199254740992 + 1 / 1000000000000000000000000000000"
    using r(3) by (rule rounding_bound)
  moreover from assms(2) have "n \<noteq> 0"
    by simp
  ultimately show ?thesis
    using r(1,2) by auto
qed

lemma align:
  assumes "x \<le> e"
  shows "real_of_int (sval s (m * 2 ^ nat (e - x))) * 2 powi x = valof (Finite s m e)"
proof -
  from assms have "(2::real) ^ nat (e - x) = 2 powi (e - x)"
    by (simp add: power_int_def)
  moreover have "(2::real) powi (e - x) * 2 powi x = 2 powi e"
    by (simp add: power_int_add [symmetric])
  ultimately have "(2::real) ^ nat (e - x) * 2 powi x = 2 powi e"
    by simp
  then have "real_of_int m * 2 ^ nat (e - x) * 2 powi x = real_of_int m * 2 powi e"
    by (simp add: mult.assoc)
  then show ?thesis
    by (simp add: sval_def)
qed

lemma dlt_valof:
  "dlt (Finite s m e) (Finite t n f) \<longleftrightarrow> valof (Finite s m e) < valof (Finite t n f)"
proof -
  define x where "x = min e f"
  have x: "x \<le> e" "x \<le> f"
    by (simp_all add: x_def)
  have pos: "0 < (2::real) powi x"
    by simp
  have "dlt (Finite s m e) (Finite t n f)
      \<longleftrightarrow> sval s (m * 2 ^ nat (e - x)) < sval t (n * 2 ^ nat (f - x))"
    by (simp add: x_def Let_def)
  also have "\<dots> \<longleftrightarrow> real_of_int (sval s (m * 2 ^ nat (e - x)))
      < real_of_int (sval t (n * 2 ^ nat (f - x)))"
    by (simp only: of_int_less_iff)
  also have "\<dots> \<longleftrightarrow> real_of_int (sval s (m * 2 ^ nat (e - x))) * 2 powi x
      < real_of_int (sval t (n * 2 ^ nat (f - x))) * 2 powi x"
    using pos by (simp only: mult_less_cancel_right_pos)
  finally show ?thesis
    by (simp only: align [OF x(1)] align [OF x(2)])
qed


text \<open>
  The results are in the stored form, the conversion of an \<open>int\<close> is exact, and the
  comparisons compare the values.
\<close>

lemma round_to_double_binary64:
  assumes p: "0 \<le> p" and q: "0 < q"
  shows "binary64 (round_to_double s p q x)"
proof (cases "p = 0")
  case True
  then show ?thesis
    by (simp add: round_to_double_def)
next
  case False
  with p have p: "0 < p"
    by simp
  define L where "L = ilog2_ratio p q"
  define e where "e = max (L + x - 52) (- 1074)"
  define n where "n = p * 2 ^ nat (x - e)"
  define d where "d = q * 2 ^ nat (e - x)"
  define m where "m = round_half_even n d"
  define R where "R = real_of_int p / real_of_int q"
  define t where "t = real_of_int n / real_of_int d"
  have LR: "2 powi L \<le> R" "R < 2 powi (L + 1)"
    using ilog2_ratio_bounds [OF p q] by (simp_all add: L_def R_def)
  have dpos: "0 < d"
    using q by (simp add: d_def)
  have npos: "0 \<le> n"
    using p by (simp add: n_def)
  have t: "t = R * 2 powi (x - e)"
  proof -
    have "e - x = - (x - e)"
      by simp
    then have "t = real_of_int (p * 2 ^ nat (x - e)) / real_of_int (q * 2 ^ nat (- (x - e)))"
      by (simp only: t_def n_def d_def)
    then show ?thesis
      by (simp only: scale_ratio R_def)
  qed
  define mr where "mr = real_of_int m"
  have err: "\<bar>mr - t\<bar> \<le> 1 / 2"
    using round_half_even_error [OF dpos, of n] by (simp add: m_def t_def mr_def)
  have mpos: "0 \<le> m"
    using round_half_even_nonneg [OF npos dpos] by (simp add: m_def)
  have upper: "m \<le> 2 ^ 53"
  proof -
    have "L + x - 52 \<le> e"
      by (simp add: e_def)
    then have "L + 1 + (x - e) \<le> 53"
      by simp
    then have "(2::real) powi (L + 1 + (x - e)) \<le> 2 powi 53"
      by (rule power_int_increasing) simp
    moreover have "(2::real) powi (L + 1 + (x - e)) = 2 powi (L + 1) * 2 powi (x - e)"
      by (rule power_int_add) simp
    moreover have "R * 2 powi (x - e) < 2 powi (L + 1) * 2 powi (x - e)"
      using LR(2) by (simp add: mult_strict_right_mono)
    ultimately have "t < 2 powi 53"
      by (simp only: t)
    then have "t < 9007199254740992"
      by simp
    with err have "mr < 9007199254740993"
      by linarith
    then have "m < 9007199254740993"
      by (simp add: mr_def)
    then show ?thesis
      by simp
  qed
  have lower: "2 ^ 52 \<le> m" if "e \<noteq> - 1074"
  proof -
    from that have "e = L + x - 52"
      by (simp add: e_def max_def split: if_splits)
    then have "L + (x - e) = 52"
      by simp
    moreover have "(2::real) powi (L + (x - e)) = 2 powi L * 2 powi (x - e)"
      by (rule power_int_add) simp
    moreover have "2 powi L * 2 powi (x - e) \<le> R * 2 powi (x - e)"
      using LR(1) by (simp add: mult_right_mono)
    ultimately have "2 powi 52 \<le> t"
      by (simp only: t)
    then have "4503599627370496 \<le> t"
      by simp
    with err have "4503599627370495 < mr"
      by linarith
    then have "4503599627370495 < m"
      by (simp add: mr_def)
    then show ?thesis
      by simp
  qed
  define e' where "e' = (if m = 2 ^ 53 then e + 1 else e)"
  define m' where "m' = (if m = 2 ^ 53 then 2 ^ 52 else m)"
  have res: "round_to_double s p q x = (if 971 < e' then Infinity s else Finite s m' e')"
    using p unfolding round_to_double_def Let_def e'_def m'_def m_def n_def d_def e_def L_def
    by simp
  have e_low: "- 1074 \<le> e"
    by (simp add: e_def)
  show ?thesis
  proof (cases "971 < e'")
    case True
    then show ?thesis
      by (simp add: res)
  next
    case False
    have "0 \<le> m' \<and> m' < 2 ^ 53 \<and> - 1074 \<le> e' \<and> (e' = - 1074 \<or> 2 ^ 52 \<le> m')"
    proof (cases "m = 2 ^ 53")
      case True
      with e_low show ?thesis
        by (simp add: m'_def e'_def)
    next
      case ne: False
      with upper have "m < 2 ^ 53"
        by simp
      with ne mpos e_low lower show ?thesis
        by (auto simp: m'_def e'_def)
    qed
    with False show ?thesis
      by (simp add: res)
  qed
qed

lemma binary64_operations:
  "binary64 (dadd a b)" "binary64 (dsub a b)"
  "binary64 a \<Longrightarrow> binary64 b \<Longrightarrow> binary64 (dmul a b)"
  "binary64 a \<Longrightarrow> binary64 b \<Longrightarrow> binary64 (ddiv a b)"
  "binary64 (double_of_int i)"
  "0 \<le> k \<Longrightarrow> 0 < l \<Longrightarrow> binary64 (double_lit k l)"
proof -
  show add: "binary64 (dadd a b)" for a b
    by (cases a; cases b) (simp_all add: Let_def round_to_double_binary64)
  show "binary64 (dsub a b)"
    by (simp add: dsub_def add)
  show "binary64 a \<Longrightarrow> binary64 b \<Longrightarrow> binary64 (dmul a b)"
    by (cases a; cases b) (simp_all add: round_to_double_binary64)
  show "binary64 a \<Longrightarrow> binary64 b \<Longrightarrow> binary64 (ddiv a b)"
    by (cases a; cases b) (auto simp: round_to_double_binary64)
  show "binary64 (double_of_int i)"
    by (simp add: double_of_int_def round_to_double_binary64)
  show "0 \<le> k \<Longrightarrow> 0 < l \<Longrightarrow> binary64 (double_lit k l)"
    by (simp add: double_lit_def round_to_double_binary64)
qed

lemma round_half_even_one: "round_half_even n 1 = n"
  by (simp add: round_half_even_def)

lemma double_of_int_exact:
  assumes "\<bar>i\<bar> < 2 ^ 53"
  shows "isfinite (double_of_int i)" and "valof (double_of_int i) = real_of_int i"
proof -
  have "isfinite (double_of_int i) \<and> valof (double_of_int i) = real_of_int i"
  proof (cases "i = 0")
    case True
    then show ?thesis
      by (simp add: double_of_int_def round_to_double_def)
  next
    case False
    then have p: "0 < \<bar>i\<bar>"
      by simp
    define L where "L = ilog2_ratio \<bar>i\<bar> 1"
    define e where "e = max (L + 0 - 52) (- 1074)"
    from ilog2_ratio_bounds(1) [OF p, of 1] have "2 powi L \<le> real_of_int \<bar>i\<bar>"
      by (simp add: L_def)
    also from assms have "real_of_int \<bar>i\<bar> < real_of_int (2 ^ 53)"
      by (simp only: of_int_less_iff)
    finally have "(2::real) powi L < 2 powi 53"
      by simp
    then have "L < 53"
      by (rule powi_less_imp)
    then have e: "e \<le> 0" "- 1074 \<le> e"
      by (simp_all add: e_def)
    then have n: "nat (e - 0) = 0" "nat (0 - e) = nat (- e)"
      by simp_all
    define m where "m = \<bar>i\<bar> * 2 ^ nat (- e)"
    have res: "round_to_double (i < 0) \<bar>i\<bar> 1 0 =
        (if 971 < (if m = 2 ^ 53 then e + 1 else e) then Infinity (i < 0)
         else Finite (i < 0) (if m = 2 ^ 53 then 2 ^ 52 else m) (if m = 2 ^ 53 then e + 1 else e))"
      using False unfolding round_to_double_def Let_def L_def [symmetric] e_def [symmetric] n
      by (simp add: round_half_even_one m_def)
    have val: "real_of_int m * 2 powi e = real_of_int \<bar>i\<bar>"
    proof -
      from e have "(2::real) ^ nat (- e) = 2 powi (- e)"
        by (simp add: power_int_def)
      moreover have "(2::real) powi (- e) * 2 powi e = 1"
        by (simp add: power_int_minus)
      ultimately show ?thesis
        by (simp add: m_def mult.assoc)
    qed
    have val': "real_of_int (2 ^ 52) * 2 powi (e + 1) = real_of_int \<bar>i\<bar>" if "m = 2 ^ 53"
    proof -
      have "(2::real) powi (e + 1) = 2 powi e * 2"
        by (simp add: power_int_add)
      with val that show ?thesis
        by simp
    qed
    from e have "\<not> 971 < (if m = 2 ^ 53 then e + 1 else e)"
      by simp
    with res val val' show ?thesis
      by (cases "m = 2 ^ 53") (auto simp: double_of_int_def)
  qed
  then show "isfinite (double_of_int i)" and "valof (double_of_int i) = real_of_int i"
    by simp_all
qed

lemma dle_valof:
  "dle (Finite s m e) (Finite t n f) \<longleftrightarrow> valof (Finite s m e) \<le> valof (Finite t n f)"
proof -
  define x where "x = min e f"
  have x: "x \<le> e" "x \<le> f"
    by (simp_all add: x_def)
  have pos: "0 < (2::real) powi x"
    by simp
  have "dle (Finite s m e) (Finite t n f)
      \<longleftrightarrow> sval s (m * 2 ^ nat (e - x)) \<le> sval t (n * 2 ^ nat (f - x))"
    by (simp add: x_def Let_def)
  also have "\<dots> \<longleftrightarrow> real_of_int (sval s (m * 2 ^ nat (e - x)))
      \<le> real_of_int (sval t (n * 2 ^ nat (f - x)))"
    by (simp only: of_int_le_iff)
  also have "\<dots> \<longleftrightarrow> real_of_int (sval s (m * 2 ^ nat (e - x))) * 2 powi x
      \<le> real_of_int (sval t (n * 2 ^ nat (f - x))) * 2 powi x"
    using pos by (simp only: mult_le_cancel_right_pos)
  finally show ?thesis
    by (simp only: align [OF x(1)] align [OF x(2)])
qed


section \<open>The calculator\<close>

lemma isfinite_not_isinf: "isfinite d \<Longrightarrow> \<not> isinf d"
  by (cases d) simp_all

text \<open>
  C1, as amended. Each of \<open>add\<close>, \<open>substract\<close> and \<open>multiply\<close> computes the double
  sum, difference or product; it throws its overflow error exactly when that result is
  an infinity, and leaves the object as it was; in every other case, a finite result and
  a not-a-number alike, it returns the result and stores it in \<open>last_result\<close>.
\<close>

theorem arithmetic_overflow_check:
  "add this a b =
     (if isinf (dadd a b) then (Inl (CalculatorError ''Addition Overflow''), this)
      else (Inr (dadd a b), this\<lparr>last_result := dadd a b\<rparr>))
   \<and> substract this a b =
     (if isinf (dsub a b) then (Inl (CalculatorError ''Substraction Overflow''), this)
      else (Inr (dsub a b), this\<lparr>last_result := dsub a b\<rparr>))
   \<and> multiply this a b =
     (if isinf (dmul a b) then (Inl (CalculatorError ''Multiplication Overflow''), this)
      else (Inr (dmul a b), this\<lparr>last_result := dmul a b\<rparr>))"
  by (simp add: add_def substract_def multiply_def updateLastResult_def Let_def)

text \<open>
  C1 as stated fails: the sum of the two infinities of opposite sign is not a finite
  number, and \<open>add\<close> returns it (a not-a-number) and stores it, with no error.
\<close>

theorem add_not_a_number_returned:
  "\<not> isfinite (dadd (Infinity False) (Infinity True))
   \<and> add new_calculator (Infinity False) (Infinity True)
       = (Inr NaN, new_calculator\<lparr>last_result := NaN\<rparr>)"
  by (simp add: add_def updateLastResult_def)

text \<open>
  The test \<open>isZero(b)\<close> of \<open>divide\<close> on the values: it holds exactly for the finite
  doubles of magnitude below the double nearest to \<open>1e-9\<close>, and for no infinity and no
  not-a-number.
\<close>

lemma isZero_valof:
  assumes "0 \<le> m"
  shows "isZero (Finite s m e) default_epsilon
    \<longleftrightarrow> \<bar>valof (Finite s m e)\<bar> < 4835703278458517 / 2 ^ 82"
proof -
  have "isZero (Finite s m e) default_epsilon
      \<longleftrightarrow> valof (Finite False m e) < valof (Finite False 4835703278458517 (- 82))"
    by (simp only: isZero_def lit_epsilon dabs.simps dlt_valof)
  moreover have "valof (Finite False m e) = \<bar>valof (Finite s m e)\<bar>"
    using assms by (simp add: abs_mult)
  moreover have "valof (Finite False 4835703278458517 (- 82)) = 4835703278458517 / 2 ^ 82"
    by (simp add: power_int_minus_divide)
  ultimately show ?thesis
    by (simp only:)
qed

lemma isZero_not_finite:
  "\<not> isZero (Infinity s) default_epsilon" "\<not> isZero NaN default_epsilon"
  by (simp_all add: isZero_def lit_epsilon)

text \<open>
  The quotient is not tested: with the divisor \<open>1e-9\<close> itself, the largest double
  divided gives the infinity, which is returned and stored.
\<close>

lemma divide_overflow_returned:
  "divide_calc new_calculator DBL_MAX default_epsilon
     = (Inr (Infinity False), new_calculator\<lparr>last_result := Infinity False\<rparr>)"
  by code_simp

text \<open>
  C2. \<open>divide\<close> throws its division-by-zero error exactly when \<open>|b| < 1e-9\<close>, tested
  before the division; otherwise it returns the double quotient and stores it in
  \<open>last_result\<close>, with no test of the quotient.
\<close>

theorem divide_zero_check:
  "divide_calc this a b =
     (if dlt (dabs b) default_epsilon then (Inl (CalculatorError ''Division by zero''), this)
      else (Inr (ddiv a b), this\<lparr>last_result := ddiv a b\<rparr>))"
  by (simp add: divide_calc_def isZero_def updateLastResult_def Let_def)

text \<open>
  C3. An arithmetic operation that throws leaves both members of the calculator as they
  were before the call.
\<close>

theorem failed_operation_keeps_state:
  assumes "f = add \<or> f = substract \<or> f = multiply \<or> f = divide_calc"
    and "fst (f this a b) = Inl err"
  shows "snd (f this a b) = this"
  using assms
  by (auto simp: add_def substract_def multiply_def divide_calc_def Let_def split: if_splits)

theorem failed_operation_keeps_state_witness:
  "fst (divide_calc \<lparr>memory = double_lit 5 1, last_result = double_lit 7 1\<rparr> (double_lit 1 1) (double_lit 0 1))
     = Inl (CalculatorError ''Division by zero'')
   \<and> snd (divide_calc \<lparr>memory = double_lit 5 1, last_result = double_lit 7 1\<rparr> (double_lit 1 1) (double_lit 0 1))
     = \<lparr>memory = double_lit 5 1, last_result = double_lit 7 1\<rparr>"
proof -
  have z: "isZero (double_lit 0 1) default_epsilon"
    by (simp add: isZero_def lit_zero lit_epsilon sval_def)
  then have e: "fst (divide_calc \<lparr>memory = double_lit 5 1, last_result = double_lit 7 1\<rparr>
      (double_lit 1 1) (double_lit 0 1)) = Inl (CalculatorError ''Division by zero'')"
    by (simp add: divide_calc_def)
  from failed_operation_keeps_state [of divide_calc, OF _ e] e show ?thesis
    by simp
qed

text \<open>
  C7. The arithmetic operations, \<open>clear\<close> and the two readers leave \<open>memory\<close> as it
  was; the three memory operations leave \<open>last_result\<close> as it was.
\<close>

theorem frame_memory_last_result:
  "memory (snd (add this a b)) = memory this
   \<and> memory (snd (substract this a b)) = memory this
   \<and> memory (snd (multiply this a b)) = memory this
   \<and> memory (snd (divide_calc this a b)) = memory this
   \<and> memory (snd (clear this)) = memory this
   \<and> memory (snd (getLastResult this)) = memory this
   \<and> memory (snd (memoryRecall this)) = memory this
   \<and> last_result (snd (memoryStore this v)) = last_result this
   \<and> last_result (snd (memoryRecall this)) = last_result this
   \<and> last_result (snd (memoryClear this)) = last_result this"
  by (simp add: add_def substract_def multiply_def divide_calc_def clear_def getLastResult_def
      memoryRecall_def memoryStore_def memoryClear_def updateLastResult_def Let_def)

text \<open>
  C8. \<open>memoryStore v\<close> then \<open>memoryRecall\<close> returns \<open>v\<close>; \<open>memoryClear\<close> then
  \<open>memoryRecall\<close> returns \<open>0.0\<close>; \<open>clear\<close> then \<open>getLastResult\<close> returns \<open>0.0\<close>;
  and none of the five operations throws.
\<close>

theorem memory_operations:
  "fst (memoryRecall (snd (memoryStore this v))) = Inr v
   \<and> fst (memoryRecall (snd (memoryClear this))) = Inr (double_lit 0 1)
   \<and> fst (getLastResult (snd (clear this))) = Inr (double_lit 0 1)
   \<and> fst (memoryStore this v) = Inr ()
   \<and> fst (memoryClear this) = Inr ()
   \<and> fst (clear this) = Inr ()
   \<and> fst (memoryRecall this) = Inr (memory this)
   \<and> fst (getLastResult this) = Inr (last_result this)"
  by (simp add: memoryRecall_def memoryStore_def memoryClear_def clear_def getLastResult_def)


section \<open>factorial\<close>

lemma factorial_loop_foldl:
  "factorial_loop i n r = foldl (\<lambda>r i. dmul r (double_of_int i)) r [i..n]"
proof (induction i n r rule: factorial_loop.induct)
  case (1 i n r)
  show ?case
  proof (cases "i \<le> n")
    case True
    then have "[i..n] = i # [i + 1..n]"
      by (simp add: upto_rec1)
    with True 1 show ?thesis
      by (simp add: factorial_loop.simps [of i n r])
  next
    case False
    then show ?thesis
      by (simp add: factorial_loop.simps [of i n r])
  qed
qed

lemma factorial_5: "factorial 5 = Inr (double_lit 120 1)"
  by code_simp

text \<open>
  C4. \<open>factorial\<close> throws \<open>std::invalid_argument\<close> for a negative \<open>n\<close> and
  \<open>std::overflow_error\<close> for \<open>n > 170\<close>, returns \<open>1.0\<close> for \<open>n \<le> 1\<close>, and otherwise
  the product of \<open>1.0\<close> by \<open>2, 3, ..., n\<close> taken from left to right in double
  arithmetic; \<open>factorial(5)\<close> is \<open>120.0\<close>.
\<close>

theorem factorial_cases:
  "factorial n =
     (if n < 0 then Inl (invalid_argument ''Factorial undefined for negative numbers'')
      else if 170 < n then Inl (overflow_error ''Factorial too large for double precision'')
      else if n \<le> 1 then Inr (double_lit 1 1)
      else Inr (foldl (\<lambda>r i. dmul r (double_of_int i)) (double_lit 1 1) [2..n]))
   \<and> factorial 5 = Inr (double_lit 120 1)"
proof (rule conjI)
  show "factorial n =
     (if n < 0 then Inl (invalid_argument ''Factorial undefined for negative numbers'')
      else if 170 < n then Inl (overflow_error ''Factorial too large for double precision'')
      else if n \<le> 1 then Inr (double_lit 1 1)
      else Inr (foldl (\<lambda>r i. dmul r (double_of_int i)) (double_lit 1 1) [2..n]))"
    by (simp add: factorial_def factorial_loop_foldl)
  show "factorial 5 = Inr (double_lit 120 1)"
    by (rule factorial_5)
qed

lemma products_finite_loop:
  "products_finite k i r \<Longrightarrow> n < i + int k \<Longrightarrow>
   isfinite (factorial_loop i n r) \<and> dle (double_lit 1 1) (factorial_loop i n r)"
proof (induction k arbitrary: i r)
  case 0
  then show ?case
    by (simp add: factorial_loop.simps [of i n r])
next
  case (Suc k)
  show ?case
  proof (cases "i \<le> n")
    case True
    from Suc.prems have "products_finite k (i + 1) (dmul r (double_of_int i))"
      by simp
    moreover from Suc.prems have "n < (i + 1) + int k"
      by simp
    ultimately show ?thesis
      using Suc.IH [of "i + 1" "dmul r (double_of_int i)"] True
      by (simp add: factorial_loop.simps [of i n r])
  next
    case False
    with Suc.prems show ?thesis
      by (simp add: factorial_loop.simps [of i n r])
  qed
qed

lemma products_finite_170: "products_finite 169 2 (double_lit 1 1)"
  by code_simp

text \<open>
  C10. For \<open>0 \<le> n \<le> 170\<close>, \<open>factorial\<close> returns a finite double that is at least
  \<open>1.0\<close>: no product of the loop overflows.
\<close>

theorem factorial_finite:
  assumes "0 \<le> n" and "n \<le> 170"
  shows "\<exists>d. factorial n = Inr d \<and> isfinite d \<and> dle (double_lit 1 1) d \<and> 1 \<le> valof d"
proof -
  have one: "isfinite (double_lit 1 1) \<and> dle (double_lit 1 1) (double_lit 1 1)"
    by (simp add: lit_one sval_def)
  have "\<exists>d. factorial n = Inr d \<and> isfinite d \<and> dle (double_lit 1 1) d"
  proof (cases "n \<le> 1")
    case True
    with one assms show ?thesis
      by (simp add: factorial_def)
  next
    case False
    from assms have "n < 2 + int 169"
      by simp
    from products_finite_loop [OF products_finite_170 this] False assms show ?thesis
      by (simp add: factorial_def)
  qed
  then obtain d where d: "factorial n = Inr d" "isfinite d" "dle (double_lit 1 1) d"
    by blast
  from d(2) obtain s m e where "d = Finite s m e"
    by (cases d) simp_all
  with d(3) have "valof (Finite False 4503599627370496 (- 52)) \<le> valof d"
    by (simp only: lit_one dle_valof)
  then have "1 \<le> valof d"
    by (simp add: power_int_minus_divide)
  with d show ?thesis
    by blast
qed

theorem factorial_finite_witness:
  "(0 :: int) \<le> 170 \<and> (170 :: int) \<le> 170
   \<and> (\<exists>d. factorial 170 = Inr d \<and> isfinite d \<and> dle (double_lit 1 1) d \<and> 1 \<le> valof d)"
  using factorial_finite [of 170] by simp


section \<open>power\<close>

lemma int_min_sless: "(- 2147483648 :: cint) <s 0"
  by (simp add: word_sless_alt)

lemma odd_sint_iff: "odd (sint (w :: cint)) \<longleftrightarrow> w AND 1 \<noteq> 0"
proof -
  have "odd (sint w) \<longleftrightarrow> bit (sint w) 0"
    by (simp add: bit_0)
  also have "\<dots> \<longleftrightarrow> bit w 0"
    by (simp add: bit_sint_iff)
  also have "\<dots> \<longleftrightarrow> odd w"
    by (simp add: bit_0)
  also have "\<dots> \<longleftrightarrow> w AND 1 \<noteq> 0"
    by (simp add: and_one_eq even_iff_mod_2_eq_zero)
  finally show ?thesis .
qed

lemma sint_half: "sint (signed_drop_bit (Suc 0) (w :: cint)) = sint w div 2"
  by (simp add: sint_signed_drop_bit_eq drop_bit_eq_div)

text \<open>The loop of the code, on the 32-bit word, is the loop of the specification.\<close>

lemma power_loop_refines:
  "power_loop exponent result current_power
     = binary_exponentiation (sint exponent) result current_power"
proof (induction exponent result current_power rule: power_loop.induct)
  case (1 exponent result current_power)
  show ?case
  proof (cases "0 <s exponent")
    case True
    then have pos: "0 < sint exponent"
      by (simp add: word_sless_alt)
    from 1 [OF True] True pos show ?thesis
      by (simp add: power_loop.simps [of exponent] sint_half odd_sint_iff
          binary_exponentiation.simps [of "sint exponent"])
  next
    case False
    then have "\<not> 0 < sint exponent"
      by (simp add: word_sless_alt)
    with False show ?thesis
      by (simp add: power_loop.simps [of exponent]
          binary_exponentiation.simps [of "sint exponent"])
  qed
qed

text \<open>
  The negation of the most negative \<open>int\<close> is that \<open>int\<close> again, so the call for it
  with a base that is not near zero calls itself with the same arguments: it has no
  result.
\<close>

lemma power_util_int_min:
  assumes nz: "\<not> isZero base default_epsilon"
  shows "power_util base (- 2147483648) = None"
proof (rule ccontr)
  assume "power_util base (- 2147483648) \<noteq> None"
  then obtain r where r: "power_util base (- 2147483648) = Some r"
    by auto
  have "\<not> (e = - 2147483648 \<and> \<not> isZero b default_epsilon)"
    if "power_util b e = Some y" for b e y
    using that
  proof (rule power_util.raw_induct [rotated 1,
        where P = "\<lambda>b e y. \<not> (e = - 2147483648 \<and> \<not> isZero b default_epsilon)"])
    fix f :: "double \<Rightarrow> cint \<Rightarrow> (error + double) option" and b e y
    assume ih: "\<And>b' e' y'. f b' e' = Some y' \<Longrightarrow>
        \<not> (e' = - 2147483648 \<and> \<not> isZero b' default_epsilon)"
    assume step: "(if e = 0 then Some (Inr (double_lit 1 1))
        else if e <s 0 then
          (if isZero b default_epsilon
           then Some (Inl (invalid_argument ''Cannot raise zero to negative power''))
           else Option.bind (f b (- e))
                  (\<lambda>r. Some (case r of Inl err \<Rightarrow> Inl err
                                | Inr v \<Rightarrow> Inr (ddiv (double_lit 1 1) v))))
        else Some (Inr (power_loop e (double_lit 1 1) b))) = Some y"
    show "\<not> (e = - 2147483648 \<and> \<not> isZero b default_epsilon)"
    proof
      assume a: "e = - 2147483648 \<and> \<not> isZero b default_epsilon"
      have eq: "(- 2147483648 :: cint) = 2147483648"
        by simp
      from a step int_min_sless obtain y' where "f b 2147483648 = Some y'"
        by (auto simp: bind_eq_Some_conv)
      then have "f b (- 2147483648) = Some y'"
        by (simp only: eq)
      from ih [OF this] a show False
        by simp
    qed
  qed
  from this [OF r] nz show False
    by simp
qed

lemma sint_neg:
  assumes ne: "e \<noteq> - 2147483648"
  shows "sint (- (e :: cint)) = - sint e"
proof -
  have "sint e \<noteq> - 2147483648"
  proof
    assume "sint e = - 2147483648"
    then have "word_of_int (sint e) = (word_of_int (- 2147483648) :: cint)"
      by simp
    with ne show False
      by simp
  qed
  moreover have "- 2147483648 \<le> sint e" "sint e < 2147483648"
    using sint_ge [of e] sint_lt [of e] by simp_all
  ultimately have "- 2147483648 \<le> - sint e \<and> - sint e < 2147483648"
    by arith
  then have "signed_take_bit 31 (- sint e) = - sint e"
    by (simp add: signed_take_bit_int_eq_self_iff)
  then show ?thesis
    by (simp add: sint_word_ariths)
qed

lemma power_util_zero: "power_util base 0 = Some (Inr (double_lit 1 1))"
  by (simp add: power_util.simps)

lemma power_util_positive:
  assumes pos: "0 <s exponent"
  shows "power_util base exponent =
     Some (Inr (binary_exponentiation (sint exponent) (double_lit 1 1) base))"
proof -
  from pos have "exponent \<noteq> 0" "\<not> exponent <s 0"
    by (auto simp: word_sless_alt)
  then show ?thesis
    by (simp add: power_util.simps [of base exponent] power_loop_refines)
qed

lemma power_util_negative:
  assumes "exponent <s 0" and "exponent \<noteq> - 2147483648"
  shows "power_util base exponent =
     (if isZero base default_epsilon
      then Some (Inl (invalid_argument ''Cannot raise zero to negative power''))
      else Some (Inr (ddiv (double_lit 1 1)
             (binary_exponentiation (- sint exponent) (double_lit 1 1) base))))"
proof -
  from assms have "sint exponent < 0"
    by (simp add: word_sless_alt)
  with assms have "0 <s - exponent"
    by (simp add: word_sless_alt sint_neg)
  from power_util_positive [OF this] assms show ?thesis
    by (auto simp: power_util.simps [of base exponent] sint_neg)
qed

lemma power_2_10: "power_util (double_lit 2 1) 10 = Some (Inr (double_lit 1024 1))"
  by (simp add: power_util.simps power_loop.simps word_sless_alt double_lit_def
      round_to_double_def ilog2_ratio_def round_half_even_def bit_length.simps Let_def)

lemma power_2_minus_1: "power_util (double_lit 2 1) (- 1) = Some (Inr (double_lit 1 2))"
  by (simp add: power_util.simps power_loop.simps word_sless_alt double_lit_def
      round_to_double_def ilog2_ratio_def round_half_even_def bit_length.simps Let_def
      isZero_def default_epsilon_def sval_def)

lemma two_not_zero: "\<not> isZero (double_lit 2 1) default_epsilon"
  by (simp add: double_lit_def round_to_double_def ilog2_ratio_def round_half_even_def
      bit_length.simps Let_def isZero_def default_epsilon_def sval_def)

text \<open>
  C5, at the input where the code fails it: \<open>power(2.0, INT_MIN)\<close>. The exponent is
  negative and the base is not near zero, the code evaluates \<open>1.0 / power(base, -exponent)\<close>,
  and \<open>-exponent\<close> is \<open>INT_MIN\<close> again: the call returns nothing, where the claim has it
  return the reciprocal of a power of two.
\<close>

theorem power_two_int_min:
  "(- 2147483648 :: cint) <s 0
   \<and> - (- 2147483648 :: cint) = - 2147483648
   \<and> \<not> isZero (double_lit 2 1) default_epsilon
   \<and> power_util (double_lit 2 1) (- 2147483648) = None"
  using power_util_int_min [OF two_not_zero] two_not_zero int_min_sless by simp

text \<open>
  C6, at the most negative exponent: \<open>power\<close> returns (the error) only when the base is
  near zero; for every other base the call does not terminate.
\<close>

theorem power_int_min_no_return:
  "power_util base (- 2147483648) =
     (if isZero base default_epsilon
      then Some (Inl (invalid_argument ''Cannot raise zero to negative power''))
      else None)"
proof (cases "isZero base default_epsilon")
  case True
  with int_min_sless show ?thesis
    by (simp add: power_util.simps [of base "- 2147483648"])
next
  case False
  with power_util_int_min [OF False] show ?thesis
    by simp
qed


text \<open>For every other exponent \<open>power\<close> returns.\<close>

lemma power_util_returns:
  assumes "exponent \<noteq> - 2147483648"
  shows "\<exists>r. power_util base exponent = Some r"
proof (cases "exponent = 0")
  case True
  then show ?thesis
    by (simp add: power_util_zero)
next
  case False
  have "sint exponent \<noteq> 0"
  proof
    assume "sint exponent = 0"
    then have "word_of_int (sint exponent) = (word_of_int 0 :: cint)"
      by simp
    with False show False
      by simp
  qed
  then have "0 < sint exponent \<or> sint exponent < 0"
    by arith
  then have "0 <s exponent \<or> exponent <s 0"
    by (simp add: word_sless_alt)
  then show ?thesis
  proof
    assume "0 <s exponent"
    then show ?thesis
      by (simp add: power_util_positive)
  next
    assume "exponent <s 0"
    from power_util_negative [OF this assms] show ?thesis
      by simp
  qed
qed

text \<open>
  The loop runs once for each binary digit of the exponent, at most 31 times.
\<close>

lemma bit_length_nonneg: "0 \<le> bit_length n"
proof (cases "0 < n")
  case True
  from bit_length_bounds [OF this] show ?thesis
    by simp
next
  case False
  then show ?thesis
    by (simp add: bit_length.simps [of n])
qed

lemma power_loop_iterations_eq:
  "power_loop_iterations exponent = nat (bit_length (sint exponent))"
proof (induction exponent rule: power_loop_iterations.induct)
  case (1 exponent)
  show ?case
  proof (cases "0 <s exponent")
    case True
    then have pos: "0 < sint exponent"
      by (simp add: word_sless_alt)
    then have "bit_length (sint exponent) = 1 + bit_length (sint exponent div 2)"
      by (simp add: bit_length.simps [of "sint exponent"])
    with 1 [OF True] True bit_length_nonneg [of "sint exponent div 2"] show ?thesis
      by (simp add: power_loop_iterations.simps [of exponent] sint_half nat_add_distrib)
  next
    case False
    then have "\<not> 0 < sint exponent"
      by (simp add: word_sless_alt)
    with False show ?thesis
      by (simp add: power_loop_iterations.simps [of exponent] bit_length.simps [of "sint exponent"])
  qed
qed

lemma power_loop_iterations_le: "power_loop_iterations exponent \<le> 31"
proof (cases "0 < sint exponent")
  case True
  from bit_length_bounds [OF True]
  have "2 ^ nat (bit_length (sint exponent) - 1) \<le> sint exponent"
    by simp
  also have "sint exponent < 2 ^ 31"
    using sint_lt [of exponent] by simp
  finally have "(2::int) ^ nat (bit_length (sint exponent) - 1) < 2 ^ 31" .
  then have "nat (bit_length (sint exponent) - 1) < 31"
    by (simp only: power_strict_increasing_iff one_less_numeral_iff semiring_norm)
  then show ?thesis
    by (simp add: power_loop_iterations_eq)
next
  case False
  then show ?thesis
    by (simp add: power_loop_iterations_eq bit_length.simps [of "sint exponent"])
qed


section \<open>Degrees and radians\<close>

lemma close_areEqual:
  assumes m: "0 \<le> m" and n: "0 \<le> n"
    and close: "\<bar>real_of_int m * 2 powi e - real_of_int n * 2 powi f\<bar> \<le> 5 / 10000000000"
  shows "areEqual (Finite s m e) (Finite s n f) default_epsilon"
proof -
  define x where "x = min e f"
  define k where "k = sval s (m * 2 ^ nat (e - x)) + sval (\<not> s) (n * 2 ^ nat (f - x))"
  define A where "A = real_of_int m * 2 powi e"
  define B where "B = real_of_int n * 2 powi f"
  have x: "x \<le> e" "x \<le> f"
    by (simp_all add: x_def)
  have "real_of_int k * 2 powi x
      = real_of_int (sval s (m * 2 ^ nat (e - x))) * 2 powi x
        + real_of_int (sval (\<not> s) (n * 2 ^ nat (f - x))) * 2 powi x"
    by (simp add: k_def algebra_simps)
  also have "\<dots> = valof (Finite s m e) + valof (Finite (\<not> s) n f)"
    by (simp only: align [OF x(1)] align [OF x(2)])
  also have "\<dots> = (if s then B - A else A - B)"
    by (simp add: A_def B_def)
  finally have kv: "real_of_int k * 2 powi x = (if s then B - A else A - B)" .
  have "\<bar>real_of_int k * 2 powi x\<bar> = real_of_int \<bar>k\<bar> * 2 powi x"
    by (simp add: abs_mult)
  moreover from kv have "\<bar>real_of_int k * 2 powi x\<bar> = \<bar>A - B\<bar>"
    by (simp only: split: if_splits) simp_all
  ultimately have kabs: "real_of_int \<bar>k\<bar> * 2 powi x = \<bar>A - B\<bar>"
    by (simp only:)
  have eps: "valof default_epsilon = 4835703278458517 / 2 ^ 82"
    by (simp add: lit_epsilon power_int_minus_divide)
  have sub: "dsub (Finite s m e) (Finite s n f)
      = (if k = 0 then Finite False 0 (- 1074) else round_to_double (k < 0) \<bar>k\<bar> 1 x)"
    by (simp add: dsub_def Let_def k_def x_def)
  show ?thesis
  proof (cases "k = 0")
    case True
    have "dlt (Finite False 0 (- 1074)) (Finite False 4835703278458517 (- 82))"
      by (simp only: dlt_valof) (simp add: power_int_minus_divide)
    with True show ?thesis
      by (simp add: areEqual_def sub lit_epsilon)
  next
    case False
    have v: "\<bar>A - B\<bar> = real_of_int \<bar>k\<bar> / real_of_int 1 * 2 powi x"
      by (simp only: kabs [symmetric] of_int_1 div_by_1)
    from close have small: "\<bar>A - B\<bar> \<le> 5 / 10000000000"
      by (simp add: A_def B_def)
    then have "\<bar>A - B\<bar> \<le> 1000000000"
      by simp
    from round_to_double_error0 [OF _ _ v huge [OF this], of "k < 0"]
    obtain m' e' where r: "round_to_double (k < 0) \<bar>k\<bar> 1 x = Finite (k < 0) m' e'"
        "0 \<le> m'"
        "\<bar>real_of_int m' * 2 powi e' - \<bar>A - B\<bar>\<bar> \<le> \<bar>A - B\<bar> * 2 powi (- 53) + 2 powi (- 1075)"
      by auto
    define r where "r = real_of_int m' * 2 powi e'"
    define dd where "dd = \<bar>A - B\<bar>"
    from r(3) have "\<bar>r - dd\<bar> \<le> dd * 2 powi (- 53) + 2 powi (- 1075)"
      by (simp only: r_def dd_def)
    then have "\<bar>r - dd\<bar> \<le> dd / 9007199254740992 + 1 / 1000000000000000000000000000000"
      by (rule rounding_bound)
    moreover from small have "dd \<le> 5 / 10000000000"
      by (simp only: dd_def)
    ultimately have "r < 4835703278458517 / 4835703278458516698824704"
      by linarith
    moreover have "(4835703278458516698824704 :: real) = 2 ^ 82"
      by simp
    ultimately have "real_of_int m' * 2 powi e' < 4835703278458517 / 2 ^ 82"
      by (simp only: r_def)
    then have "valof (Finite False m' e') < valof default_epsilon"
      by (simp only: eps valof.simps) simp
    then have "dlt (Finite False m' e') default_epsilon"
      by (simp only: lit_epsilon dlt_valof)
    with False r(1) show ?thesis
      by (simp add: areEqual_def sub)
  qed
qed

lemma angle_round_trip_mag:
  assumes m: "0 \<le> m" and X: "real_of_int m * 2 powi e \<le> 1000000"
  shows "areEqual (radianToDegree (degreeToRadian (Finite s m e))) (Finite s m e)
    default_epsilon"
proof -
  define X where "X = real_of_int m * 2 powi e"
  define PI where "PI = real_of_int 7074237752028440 * 2 powi (- 51)"
  define C where "C = real_of_int 6333186975989760 * 2 powi (- 45)"
  have PIv: "PI = 884279719003555 / 281474976710656"
    by (simp add: PI_def power_int_minus_divide)
  have Cv: "C = 180"
    by (simp add: C_def power_int_minus_divide)
  have X0: "0 \<le> X" "X \<le> 1000000"
    using m X by (simp_all add: X_def)
  have b1: "X * PI \<le> 1000000000"
    using X0 unfolding PIv by linarith
  from dmul_error [OF m _ X_def PI_def b1, of s False]
  obtain m1 e1 where y1: "dmul (Finite s m e) M_PI = Finite s m1 e1" "0 \<le> m1"
      "\<bar>real_of_int m1 * 2 powi e1 - X * PI\<bar>
        \<le> X * PI / 9007199254740992 + 1 / 1000000000000000000000000000000"
    by (auto simp: lit_M_PI)
  define r1 where "r1 = real_of_int m1 * 2 powi e1"
  have h1: "\<bar>r1 - X * PI\<bar> \<le> X * PI / 9007199254740992 + 1 / 1000000000000000000000000000000"
    using y1(3) by (simp only: r1_def)
  have a1: "\<bar>r1 - X * (884279719003555 / 281474976710656)\<bar> \<le> 35 / 100000000000"
    using h1 X0 unfolding PIv by linarith
  have r1b: "r1 \<le> 3141593"
    using a1 X0 by linarith
  have b2: "r1 / C \<le> 1000000000"
    using r1b unfolding Cv by linarith
  from ddiv_error [OF y1(2) _ r1_def C_def b2, of s False]
  obtain m2 e2 where y2: "ddiv (Finite s m1 e1) (double_lit 180 1) = Finite s m2 e2" "0 \<le> m2"
      "\<bar>real_of_int m2 * 2 powi e2 - r1 / C\<bar>
        \<le> r1 / C / 9007199254740992 + 1 / 1000000000000000000000000000000"
    by (auto simp: lit_180)
  define r2 where "r2 = real_of_int m2 * 2 powi e2"
  have h2: "\<bar>r2 - r1 / C\<bar> \<le> r1 / C / 9007199254740992 + 1 / 1000000000000000000000000000000"
    using y2(3) by (simp only: r2_def)
  have a2: "\<bar>r2 - r1 / 180\<bar> \<le> 2 / 1000000000000"
    using h2 r1b unfolding Cv by linarith
  have r2b: "r2 \<le> 17454"
    using a2 r1b by linarith
  have b3: "r2 * C \<le> 1000000000"
    using r2b unfolding Cv by linarith
  from dmul_error [OF y2(2) _ r2_def C_def b3, of s False]
  obtain m3 e3 where y3: "dmul (Finite s m2 e2) (double_lit 180 1) = Finite s m3 e3" "0 \<le> m3"
      "\<bar>real_of_int m3 * 2 powi e3 - r2 * C\<bar>
        \<le> r2 * C / 9007199254740992 + 1 / 1000000000000000000000000000000"
    by (auto simp: lit_180)
  define r3 where "r3 = real_of_int m3 * 2 powi e3"
  have h3: "\<bar>r3 - r2 * C\<bar> \<le> r2 * C / 9007199254740992 + 1 / 1000000000000000000000000000000"
    using y3(3) by (simp only: r3_def)
  have a3: "\<bar>r3 - r2 * 180\<bar> \<le> 35 / 100000000000"
    using h3 r2b unfolding Cv by linarith
  have r3b: "r3 \<le> 3141721"
    using a3 r2b by linarith
  have b4: "r3 / PI \<le> 1000000000"
    using r3b by (simp add: PIv)
  from ddiv_error [OF y3(2) _ r3_def PI_def b4, of s False]
  obtain m4 e4 where y4: "ddiv (Finite s m3 e3) M_PI = Finite s m4 e4" "0 \<le> m4"
      "\<bar>real_of_int m4 * 2 powi e4 - r3 / PI\<bar>
        \<le> r3 / PI / 9007199254740992 + 1 / 1000000000000000000000000000000"
    by (auto simp: lit_M_PI)
  define r4 where "r4 = real_of_int m4 * 2 powi e4"
  have h4: "\<bar>r4 - r3 / PI\<bar> \<le> r3 / PI / 9007199254740992 + 1 / 1000000000000000000000000000000"
    using y4(3) by (simp only: r4_def)
  have q4: "r3 / PI = r3 * (281474976710656 / 884279719003555)"
    by (simp add: PIv)
  have a4: "\<bar>r4 - r3 * (281474976710656 / 884279719003555)\<bar> \<le> 112 / 1000000000000"
    using h4 r3b unfolding q4 by linarith
  have "\<bar>r4 - X\<bar> \<le> 5 / 10000000000"
    using a1 a2 a3 a4 by linarith
  then have "\<bar>real_of_int m4 * 2 powi e4 - real_of_int m * 2 powi e\<bar> \<le> 5 / 10000000000"
    by (simp only: r4_def X_def)
  from close_areEqual [OF y4(2) m this, of s]
  show ?thesis
    by (simp add: degreeToRadian_def radianToDegree_def y1 y2 y3 y4)
qed

text \<open>
  C9 as stated fails: \<open>7509891.0\<close> is a finite double, and its round trip ends two
  units in the last place below it, \<open>2 ^ - 29\<close> away, which is more than \<open>1e-9\<close>.
\<close>

theorem angle_round_trip_fails:
  "isfinite (double_of_int 7509891)
   \<and> radianToDegree (degreeToRadian (double_of_int 7509891))
       = Finite False 8063684060381182 (- 30)
   \<and> double_of_int 7509891 = Finite False 8063684060381184 (- 30)
   \<and> \<not> areEqual (radianToDegree (degreeToRadian (double_of_int 7509891)))
         (double_of_int 7509891) default_epsilon"
  by code_simp

text \<open>
  C9, as amended. For every finite double \<open>x\<close> (the significand of a double is not
  negative) of magnitude at most \<open>1000000\<close>, the round trip
  \<open>radianToDegree(degreeToRadian(x))\<close> is equal to \<open>x\<close> within \<open>1e-9\<close>, as \<open>areEqual\<close>
  tests it.
\<close>

theorem angle_round_trip:
  assumes "0 \<le> m" and "\<bar>valof (Finite s m e)\<bar> \<le> 1000000"
  shows "areEqual (radianToDegree (degreeToRadian (Finite s m e))) (Finite s m e)
    default_epsilon"
proof -
  from assms have "real_of_int m * 2 powi e \<le> 1000000"
    by (simp add: abs_mult split: if_splits)
  with assms(1) show ?thesis
    by (rule angle_round_trip_mag)
qed

theorem angle_round_trip_witness:
  "(0 :: int) \<le> 6333186975989760
   \<and> \<bar>valof (Finite False 6333186975989760 (- 46))\<bar> \<le> 1000000
   \<and> areEqual (radianToDegree (degreeToRadian (Finite False 6333186975989760 (- 46))))
        (Finite False 6333186975989760 (- 46)) default_epsilon"
  using angle_round_trip [of 6333186975989760 False "- 46"]
  by (simp add: power_int_minus_divide)

end
